theory Spec2Isabelle
  imports Main "HOL-Library.Word"
begin

unbundle bit_operations_syntax

section \<open>The port framing layer of \<^verbatim>\<open>c_src/erl_comm.c\<close>\<close>

text \<open>
  The file holds four C functions: \<^verbatim>\<open>read_cmd\<close>, \<^verbatim>\<open>write_exact\<close>, \<^verbatim>\<open>write_cmd\<close> and
  \<^verbatim>\<open>send_answer_string_ulong\<close>. They talk to the outside through \<^verbatim>\<open>read(0, ...)\<close>,
  \<^verbatim>\<open>write(1, ...)\<close>, \<^verbatim>\<open>realloc\<close>, \<^verbatim>\<open>memset\<close> and the \<^verbatim>\<open>ei_x_*\<close> functions of erl_interface.
  Each of them is a HOL function below; what the C code does to memory and to the two
  streams is explicit state that the functions take and return. An access that C leaves
  undefined (outside a block, through a freed pointer, a signed overflow) ends the run
  with a \<open>fault\<close>, the left summand of every result.
\<close>

subsection \<open>Memory\<close>

type_synonym byte = "8 word"

datatype fault = Bad_pointer | Out_of_bounds | Int_overflow | Bad_realloc_size

text \<open>
  A \<^verbatim>\<open>char *\<close> that points at the start of an allocated block is the number of the
  block; the heap maps a live block to its bytes and a freed one to \<open>None\<close>.
\<close>

type_synonym heap = "nat \<Rightarrow> byte list option"

text \<open>The values of a C \<^verbatim>\<open>int\<close> (32 bits).\<close>

definition c_int :: "int \<Rightarrow> bool" where
  "c_int x \<longleftrightarrow> - (2 ^ 31) \<le> x \<and> x < 2 ^ 31"

text \<open>Writing the bytes \<open>bs\<close> into block \<open>p\<close> from offset \<open>off\<close> on.\<close>

definition store_bytes :: "heap \<Rightarrow> nat \<Rightarrow> int \<Rightarrow> byte list \<Rightarrow> fault + heap" where
  "store_bytes h p off bs =
     (if bs = [] then Inr h
      else case h p of
        None \<Rightarrow> Inl Bad_pointer
      | Some blk \<Rightarrow>
          if off < 0 \<or> int (length blk) < off + int (length bs) then Inl Out_of_bounds
          else Inr (h(p \<mapsto> take (nat off) blk @ bs @ drop (nat off + length bs) blk)))"

text \<open>
  \<^verbatim>\<open>realloc\<close> may fail, enlarge the block where it is, or move it and free the old
  block; which of the three happens is the allocator's choice, here the value \<open>alloc\<close>.
  The bytes beyond the old length are indeterminate: \<open>junk i\<close> is the byte found at
  offset \<open>i\<close>. A request of no bytes is implementation-defined and ends the run.
\<close>

datatype alloc = Alloc_fail | Alloc_in_place "nat \<Rightarrow> byte" | Alloc_moved nat "nat \<Rightarrow> byte"

definition resized :: "(nat \<Rightarrow> byte) \<Rightarrow> byte list \<Rightarrow> nat \<Rightarrow> byte list" where
  "resized junk blk n = take n blk @ map junk [length blk..<n]"

definition realloc :: "alloc \<Rightarrow> heap \<Rightarrow> nat \<Rightarrow> int \<Rightarrow> fault + (nat option \<times> heap)" where
  "realloc a h p n =
     (case h p of
        None \<Rightarrow> Inl Bad_pointer
      | Some blk \<Rightarrow>
          if n \<le> 0 then Inl Bad_realloc_size
          else case a of
            Alloc_fail \<Rightarrow> Inr (None, h)
          | Alloc_in_place junk \<Rightarrow> Inr (Some p, h(p \<mapsto> resized junk blk (nat n)))
          | Alloc_moved q junk \<Rightarrow> Inr (Some q, (h(p := None))(q \<mapsto> resized junk blk (nat n))))"

definition memset :: "heap \<Rightarrow> nat \<Rightarrow> byte \<Rightarrow> int \<Rightarrow> fault + heap" where
  "memset h p c n =
     (case h p of
        None \<Rightarrow> Inl Bad_pointer
      | Some blk \<Rightarrow>
          if n < 0 \<or> int (length blk) < n then Inl Out_of_bounds
          else Inr (h(p \<mapsto> replicate (nat n) c @ drop (nat n) blk)))"

subsection \<open>The inbound stream\<close>

text \<open>
  What file descriptor 0 will deliver: a list of deliveries, each either some bytes or
  a status \<open>k\<close> that makes \<^verbatim>\<open>read\<close> return \<open>- k\<close> (0 for a closed stream; an error is
  \<open>Status 1\<close>, the \<^verbatim>\<open>-1\<close> of POSIX). A \<^verbatim>\<open>read\<close> blocks until the next delivery and then
  takes at most the bytes asked for from it; after the last delivery the stream is
  closed. A count that is negative as an \<^verbatim>\<open>int\<close> is above \<^verbatim>\<open>SSIZE_MAX\<close> as a
  \<^verbatim>\<open>size_t\<close>: the call fails with \<^verbatim>\<open>EINVAL\<close>.
\<close>

datatype delivery = Data "byte list" | Status nat

definition sys_read :: "int \<Rightarrow> delivery list \<Rightarrow> int \<times> byte list \<times> delivery list" where
  "sys_read n ins =
     (if n < 0 then (- 1, [], ins)
      else case ins of
        [] \<Rightarrow> (0, [], [])
      | Status k # rest \<Rightarrow> (- int k, [], rest)
      | Data bs # rest \<Rightarrow>
          if n = 0 then (0, [], ins)
          else (int (length (take (nat n) bs)), take (nat n) bs,
                if drop (nat n) bs = [] then rest else Data (drop (nat n) bs) # rest))"

text \<open>\<^verbatim>\<open>read(0, buf + off, n)\<close>: the count, and the bytes stored in the block.\<close>

definition read_fd ::
  "heap \<Rightarrow> nat \<Rightarrow> int \<Rightarrow> int \<Rightarrow> delivery list \<Rightarrow> fault + (int \<times> heap \<times> delivery list)" where
  "read_fd h p off n ins =
     (case sys_read n ins of
        (count, bs, ins') \<Rightarrow>
          (case store_bytes h p off bs of
             Inl f \<Rightarrow> Inl f
           | Inr h' \<Rightarrow> Inr (count, h', ins')))"

subsection \<open>\<^verbatim>\<open>read_cmd\<close>\<close>

text \<open>
  The caller's three variables behind \<^verbatim>\<open>char **pbuf, int *size, int *curpos\<close>, and the
  heap that \<^verbatim>\<open>*pbuf\<close> points into.
\<close>

record reader =
  mem :: heap
  pbuf :: nat
  bufsize :: int
  curpos :: int

text \<open>The bytes of the buffer \<^verbatim>\<open>*pbuf\<close>.\<close>

definition buffer :: "reader \<Rightarrow> byte list option" where
  "buffer r = mem r (pbuf r)"

text \<open>
  Line 42, \<^verbatim>\<open>len = ((buf[0] << 8) & 0x0000ff00) | (buf[1] & 0x00ff)\<close>. A \<^verbatim>\<open>char\<close> is
  promoted to \<^verbatim>\<open>int\<close> before the shift: with sign extension where \<^verbatim>\<open>char\<close> is signed
  (\<open>sg\<close>), without where it is unsigned.
\<close>

definition char_to_int :: "bool \<Rightarrow> byte \<Rightarrow> 32 word" where
  "char_to_int sg c = (if sg then scast c else ucast c)"

definition frame_len :: "bool \<Rightarrow> byte \<Rightarrow> byte \<Rightarrow> int" where
  "frame_len sg b0 b1 =
     sint ((push_bit 8 (char_to_int sg b0) AND 0x0000ff00) OR (char_to_int sg b1 AND 0x00ff))"

text \<open>
  Lines 27 to 37, the header phase. The result \<open>Some rc\<close> is a \<^verbatim>\<open>return(rc)\<close>; \<open>None\<close>
  means control reaches line 38.
\<close>

definition read_header ::
  "reader \<Rightarrow> delivery list \<Rightarrow> fault + (int option \<times> reader \<times> delivery list)" where
  "read_header r ins =
     (if curpos r < 2 then
        if c_int (2 - curpos r) then
          case read_fd (mem r) (pbuf r) (curpos r) (2 - curpos r) ins of
            Inl f \<Rightarrow> Inl f
          | Inr (count, h, ins') \<Rightarrow>
              if count \<le> 0 then Inr (Some count, r\<lparr>mem := h\<rparr>, ins')
              else if curpos r + count < 2
                then Inr (Some 1, r\<lparr>mem := h, curpos := curpos r + count\<rparr>, ins')
                else Inr (None, r\<lparr>mem := h, curpos := curpos r + count\<rparr>, ins')
        else Inl Int_overflow
      else Inr (None, r, ins))"

text \<open>
  Lines 46 to 54, the growth of the buffer. \<open>None\<close> is the \<^verbatim>\<open>return -1\<close> of line 49.
  The \<^verbatim>\<open>memset\<close> of line 50 is given \<^verbatim>\<open>*pbuf\<close>, which still holds the pointer that was
  passed to \<^verbatim>\<open>realloc\<close>; \<^verbatim>\<open>*pbuf\<close> is assigned on the line after.
\<close>

definition grow_buf :: "alloc \<Rightarrow> reader \<Rightarrow> int \<Rightarrow> fault + reader option" where
  "grow_buf a r len =
     (if len > bufsize r then
        case realloc a (mem r) (pbuf r) len of
          Inl f \<Rightarrow> Inl f
        | Inr (None, h) \<Rightarrow> Inr None
        | Inr (Some newbuf, h) \<Rightarrow>
            if c_int (len - bufsize r) then
              case memset h (pbuf r) 0 (len - bufsize r) of
                Inl f \<Rightarrow> Inl f
              | Inr h' \<Rightarrow> Inr (Some (r\<lparr>mem := h', pbuf := newbuf, bufsize := len\<rparr>))
            else Inl Int_overflow
      else Inr (Some r))"

text \<open>Lines 42 to 62, from the decoding of the length to the end of the function.\<close>

definition read_body ::
  "bool \<Rightarrow> alloc \<Rightarrow> reader \<Rightarrow> delivery list \<Rightarrow> fault + (int \<times> reader \<times> delivery list)" where
  "read_body sg a r ins =
     (case mem r (pbuf r) of
        None \<Rightarrow> Inl Bad_pointer
      | Some blk \<Rightarrow>
          if length blk < 2 then Inl Out_of_bounds
          else
            let len = frame_len sg (blk ! 0) (blk ! 1);
                desired = len - curpos r + 2
            in if c_int (len - curpos r) \<and> c_int desired then
                 case grow_buf a r len of
                   Inl f \<Rightarrow> Inl f
                 | Inr None \<Rightarrow> Inr (- 1, r, ins)
                 | Inr (Some r1) \<Rightarrow>
                     (case read_fd (mem r1) (pbuf r1) (curpos r1) desired ins of
                        Inl f \<Rightarrow> Inl f
                      | Inr (count, h, ins') \<Rightarrow>
                          if count \<le> 0 then Inr (0, r1\<lparr>mem := h\<rparr>, ins')
                          else Inr (2, r1\<lparr>mem := h, curpos := curpos r1 + count\<rparr>, ins'))
               else Inl Int_overflow)"

definition read_cmd ::
  "bool \<Rightarrow> alloc \<Rightarrow> reader \<Rightarrow> delivery list \<Rightarrow> fault + (int \<times> reader \<times> delivery list)" where
  "read_cmd sg a r ins =
     (case read_header r ins of
        Inl f \<Rightarrow> Inl f
      | Inr (Some rc, r', ins') \<Rightarrow> Inr (rc, r', ins')
      | Inr (None, r', ins') \<Rightarrow> read_body sg a r' ins')"

text \<open>
  A sequence of calls. The loop that calls \<^verbatim>\<open>read_cmd\<close> is the caller's; between two
  calls it may set the cursor (to 0 once it has consumed a frame), and each call meets
  its own answer of the allocator. The return codes are collected in order.
\<close>

fun read_cmds ::
  "bool \<Rightarrow> (alloc \<times> int option) list \<Rightarrow> reader \<Rightarrow> delivery list
     \<Rightarrow> fault + (int list \<times> reader \<times> delivery list)" where
  "read_cmds sg [] r ins = Inr ([], r, ins)"
| "read_cmds sg ((a, c) # cs) r ins =
     (case read_cmd sg a (case c of None \<Rightarrow> r | Some v \<Rightarrow> r\<lparr>curpos := v\<rparr>) ins of
        Inl f \<Rightarrow> Inl f
      | Inr (rc, r', ins') \<Rightarrow>
          (case read_cmds sg cs r' ins' of
             Inl f \<Rightarrow> Inl f
           | Inr (rcs, r'', ins'') \<Rightarrow> Inr (rc # rcs, r'', ins'')))"

subsection \<open>The outbound stream, \<^verbatim>\<open>write_exact\<close> and \<^verbatim>\<open>write_cmd\<close>\<close>

text \<open>
  What file descriptor 1 will do with the next calls of \<^verbatim>\<open>write\<close>: accept at most \<open>k\<close>
  bytes, or refuse and return \<open>- k\<close>. Once the list is used up every write is accepted
  whole. \<open>sent\<close> collects the bytes transmitted so far.
\<close>

datatype wr = Accept nat | Refuse nat

record sink =
  pending :: "wr list"
  sent :: "byte list"

fun accepted :: "wr list \<Rightarrow> int \<Rightarrow> int" where
  "accepted [] n = n"
| "accepted (Accept k # ws) n = min (int k) n"
| "accepted (Refuse k # ws) n = - int k"

text \<open>\<^verbatim>\<open>write(1, buf + off, n)\<close>, where \<open>buf\<close> is the whole object that \<^verbatim>\<open>buf\<close> points into.\<close>

definition sys_write :: "byte list \<Rightarrow> int \<Rightarrow> int \<Rightarrow> sink \<Rightarrow> fault + (int \<times> sink)" where
  "sys_write buf off n s =
     (if n < 0 then Inr (- 1, s)
      else let i = accepted (pending s) n in
        if i \<le> 0 then Inr (i, s\<lparr>pending := tl (pending s)\<rparr>)
        else if off < 0 \<or> int (length buf) < off + i then Inl Out_of_bounds
        else Inr (i, \<lparr>pending = tl (pending s),
                      sent = sent s @ take (nat i) (drop (nat off) buf)\<rparr>))"

text \<open>Lines 68 to 74: the \<^verbatim>\<open>do ... while (wrote<len)\<close> loop, entered with \<^verbatim>\<open>wrote\<close>.\<close>

function write_loop :: "byte list \<Rightarrow> int \<Rightarrow> int \<Rightarrow> sink \<Rightarrow> fault + (int \<times> sink)" where
  "write_loop buf len wrote s =
     (case sys_write buf wrote (len - wrote) s of
        Inl f \<Rightarrow> Inl f
      | Inr (i, s') \<Rightarrow>
          if i \<le> 0 then Inr (i, s')
          else if wrote + i < len then write_loop buf len (wrote + i) s'
          else Inr (len, s'))"
  by pat_completeness auto
termination
  by (relation "measure (\<lambda>(buf, len, wrote, s). nat (len - wrote))") auto

declare write_loop.simps [simp del]

definition write_exact :: "byte list \<Rightarrow> int \<Rightarrow> sink \<Rightarrow> fault + (int \<times> sink)" where
  "write_exact buf len s = write_loop buf len 0 s"

text \<open>The two fields of \<^verbatim>\<open>ei_x_buff\<close> that this file reads.\<close>

record ei_x_buff =
  buff :: "byte list"
  index :: int

text \<open>
  Lines 77 to 86. The results of the two header writes are dropped, as in the source;
  \<^verbatim>\<open>li\<close> is a one-byte object of its own.
\<close>

definition write_cmd :: "ei_x_buff \<Rightarrow> sink \<Rightarrow> fault + (int \<times> sink)" where
  "write_cmd b s =
     (case write_exact [word_of_int (drop_bit 8 (index b) AND 0xff)] 1 s of
        Inl f \<Rightarrow> Inl f
      | Inr (r1, s1) \<Rightarrow>
          (case write_exact [word_of_int (index b AND 0xff)] 1 s1 of
             Inl f \<Rightarrow> Inl f
           | Inr (r2, s2) \<Rightarrow> write_exact (buff b) (index b) s2))"

subsection \<open>\<^verbatim>\<open>send_answer_string_ulong\<close>\<close>

text \<open>
  The encoder functions belong to erl_interface, not to this repository: they are
  parameters. Each returns its status (0 when it succeeded) and the buffer as it left
  it. \<^verbatim>\<open>TUPLE_HEADER_SIZE\<close> comes from the header file and is a parameter too.
\<close>

record ei_lib =
  ei_x_new_with_version :: "int \<times> ei_x_buff"
  ei_x_encode_tuple_header :: "ei_x_buff \<Rightarrow> int \<Rightarrow> int \<times> ei_x_buff"
  ei_x_encode_atom :: "ei_x_buff \<Rightarrow> string \<Rightarrow> int \<times> ei_x_buff"
  ei_x_encode_ulong :: "ei_x_buff \<Rightarrow> 32 word \<Rightarrow> int \<times> ei_x_buff"

text \<open>
  Lines 99 to 102: the four encoder calls joined by \<^verbatim>\<open>||\<close>. A call is made only when
  all calls before it returned 0; the result is the first status that is not 0, or 0.
\<close>

definition encode_reply :: "ei_lib \<Rightarrow> int \<Rightarrow> string \<Rightarrow> 32 word \<Rightarrow> int \<times> ei_x_buff" where
  "encode_reply lib ths string v =
     (case ei_x_new_with_version lib of
        (e1, b1) \<Rightarrow>
          if e1 \<noteq> 0 then (e1, b1)
          else case ei_x_encode_tuple_header lib b1 ths of
            (e2, b2) \<Rightarrow>
              if e2 \<noteq> 0 then (e2, b2)
              else case ei_x_encode_atom lib b2 string of
                (e3, b3) \<Rightarrow>
                  if e3 \<noteq> 0 then (e3, b3)
                  else ei_x_encode_ulong lib b3 v)"

text \<open>
  The world of the reply encoder: the outbound stream and the buffers that were handed
  to \<^verbatim>\<open>ei_x_free\<close>, in order.
\<close>

record world =
  out :: sink
  freed :: "ei_x_buff list"

definition ei_x_free :: "ei_x_buff \<Rightarrow> world \<Rightarrow> world" where
  "ei_x_free b w = w\<lparr>freed := freed w @ [b]\<rparr>"

definition send_answer_string_ulong ::
  "ei_lib \<Rightarrow> int \<Rightarrow> string \<Rightarrow> 32 word \<Rightarrow> world \<Rightarrow> fault + (int \<times> world)" where
  "send_answer_string_ulong lib ths string v w =
     (case encode_reply lib ths string v of
        (e, result) \<Rightarrow>
          if e \<noteq> 0 then Inr (- 1, ei_x_free result w)
          else case write_cmd result (out w) of
            Inl f \<Rightarrow> Inl f
          | Inr (n, s) \<Rightarrow>
              Inr (if n = 0 then - 1 else 0, ei_x_free result (w\<lparr>out := s\<rparr>)))"

subsection \<open>Observations and sample inputs\<close>

text \<open>
  What a caller sees after a call of \<^verbatim>\<open>read_cmd\<close>: the return code, the cursor, the
  capacity, the bytes of the buffer and what is left of the inbound stream.
\<close>

definition observe ::
  "fault + (int \<times> reader \<times> delivery list)
     \<Rightarrow> fault + (int \<times> int \<times> int \<times> byte list option \<times> delivery list)" where
  "observe x =
     (case x of
        Inl f \<Rightarrow> Inl f
      | Inr (rc, r, ins) \<Rightarrow> Inr (rc, curpos r, bufsize r, buffer r, ins))"

text \<open>
  A caller that has allocated the block \<open>blk\<close> as its buffer, recorded its length as the
  capacity and set the cursor to 0.
\<close>

definition fresh_reader :: "byte list \<Rightarrow> reader" where
  "fresh_reader blk =
     \<lparr>mem = Map.empty(0 \<mapsto> blk), pbuf = 0, bufsize = int (length blk), curpos = 0\<rparr>"

text \<open>
  A stand-in for erl_interface to run \<^verbatim>\<open>send_answer_string_ulong\<close> on: it writes the
  external term format of small tuples, small atoms and small integers, and its integer
  encoder returns the status \<open>e\<close>, leaving the buffer alone when \<open>e\<close> is not 0.
\<close>

definition example_lib :: "int \<Rightarrow> ei_lib" where
  "example_lib e =
     \<lparr>ei_x_new_with_version = (0, \<lparr>buff = [131], index = 1\<rparr>),
      ei_x_encode_tuple_header =
        (\<lambda>b n. (0, \<lparr>buff = buff b @ [104, word_of_int n], index = index b + 2\<rparr>)),
      ei_x_encode_atom =
        (\<lambda>b s. (0, \<lparr>buff = buff b @ [115, of_nat (length s)] @ map (\<lambda>c. of_nat (of_char c)) s,
                      index = index b + 2 + int (length s)\<rparr>)),
      ei_x_encode_ulong =
        (\<lambda>b v. (e, if e = 0 then \<lparr>buff = buff b @ [97, ucast v], index = index b + 2\<rparr> else b))\<rparr>"

section \<open>The decoded length\<close>

lemma byte_bit: "bit (c :: byte) n \<Longrightarrow> n < 8"
  by (drule bit_imp_le_length) simp

lemma byte_bit7: "bit (c :: byte) n \<Longrightarrow> 7 \<le> n \<Longrightarrow> n = 7"
  by (drule byte_bit) simp

lemma nat_is_7: "7 \<le> n \<Longrightarrow> n < 8 \<Longrightarrow> n = (7::nat)"
  by simp

lemma word32_ff: "(0xff :: 32 word) = mask 8"
  by (simp add: mask_eq_exp_minus_1)

lemma word32_ff00: "(0xff00 :: 32 word) = push_bit 8 (mask 8)"
  by (simp add: mask_eq_exp_minus_1 push_bit_eq_mult)

text \<open>The masks remove exactly the bits that a sign extension adds.\<close>

lemma low_byte: "char_to_int sg c AND 0xff = ucast c"
  unfolding char_to_int_def word32_ff
  by (rule bit_word_eqI) (auto simp add: bit_simps min_def dest: byte_bit byte_bit7 nat_is_7)

lemma high_byte: "push_bit 8 (char_to_int sg c) AND 0xff00 = push_bit 8 (ucast c)"
  unfolding char_to_int_def word32_ff00
  by (rule bit_word_eqI) (auto simp add: bit_simps min_def dest: byte_bit byte_bit7 nat_is_7)

lemma or_bytes_int:
  assumes "0 \<le> y" "y < 256"
  shows "push_bit 8 x OR y = x * 256 + (y::int)"
proof -
  have y: "take_bit 8 y = y"
    using assms by (simp add: take_bit_int_eq_self)
  then have "push_bit 8 x OR y = concat_bit 8 y x"
    by (simp add: concat_bit_def or.commute)
  also have "\<dots> = take_bit 8 y + push_bit 8 x"
    by (rule concat_bit_eq)
  finally show ?thesis
    using y by (simp add: push_bit_eq_mult)
qed

lemma uint_byte_bounds: "0 \<le> uint (b::byte)" "uint (b::byte) < 256"
  using uint_bounded [of b] by simp_all

lemma frame_len_eq: "frame_len sg b0 b1 = uint b0 * 256 + uint b1"
proof -
  let ?w = "push_bit 8 (ucast b0) OR ucast b1 :: 32 word"
  have b: "0 \<le> uint b0" "uint b0 < 256" "0 \<le> uint b1" "uint b1 < 256"
    by (rule uint_byte_bounds)+
  have u0: "uint (ucast b0 :: 32 word) = uint b0" "uint (ucast b1 :: 32 word) = uint b1"
    by (simp_all add: uint_up_ucast is_up)
  have "uint (push_bit 8 (ucast b0 :: 32 word)) = take_bit 32 (push_bit 8 (uint b0))"
    unfolding unsigned_push_bit_eq u0 by simp
  also have "\<dots> = push_bit 8 (uint b0)"
    using b by (intro take_bit_int_eq_self) (simp_all add: push_bit_eq_mult)
  finally have p: "uint (push_bit 8 (ucast b0 :: 32 word)) = push_bit 8 (uint b0)" .
  have u: "uint ?w = uint b0 * 256 + uint b1"
    using b by (simp add: uint_or p u0 or_bytes_int)
  have "sint ?w = signed_take_bit 31 (uint ?w)"
    by (simp add: sint_uint)
  also have "\<dots> = uint ?w"
  proof (rule signed_take_bit_int_eq_self)
    show "- (2 ^ 31) \<le> uint ?w"
      by (rule order_trans [of _ 0]) simp_all
    show "uint ?w < 2 ^ 31"
      unfolding u using b by simp
  qed
  finally show ?thesis
    unfolding frame_len_def high_byte low_byte u .
qed

lemma frame_len_range: "0 \<le> frame_len sg b0 b1" "frame_len sg b0 b1 \<le> 65535"
  using uint_byte_bounds [of b0] uint_byte_bounds [of b1]
  unfolding frame_len_eq by simp_all

text \<open>
  Claim C8. Whatever the two header bytes are, and whether \<^verbatim>\<open>char\<close> is signed or not, the
  length that line 42 of \<^verbatim>\<open>read_cmd\<close> computes is the unsigned big-endian value
  \<open>header[0] * 256 + header[1]\<close>, a number from 0 to 65535.
\<close>

theorem frame_len_big_endian:
  "frame_len sg b0 b1 = uint b0 * 256 + uint b1
   \<and> 0 \<le> frame_len sg b0 b1 \<and> frame_len sg b0 b1 \<le> 65535"
  using frame_len_eq [of sg b0 b1] frame_len_range [of sg b0 b1] by simp

section \<open>The reader\<close>

subsection \<open>What a call leaves alone\<close>

lemma sys_read_nonpos:
  "sys_read n ins = (count, bs, ins') \<Longrightarrow> count \<le> 0 \<Longrightarrow> bs = []"
  by (auto simp: sys_read_def split: if_splits list.splits delivery.splits)

lemma sys_read_pos:
  "sys_read n ins = (count, bs, ins') \<Longrightarrow> 0 < count \<Longrightarrow> count = int (length bs) \<and> count \<le> n"
  by (auto simp: sys_read_def split: if_splits list.splits delivery.splits)

lemma read_fd_nonpos:
  "read_fd h p off n ins = Inr (count, h', ins') \<Longrightarrow> count \<le> 0 \<Longrightarrow> h' = h"
  by (auto simp: read_fd_def store_bytes_def dest: sys_read_nonpos split: prod.splits sum.splits if_splits)

lemma read_header_frame:
  "read_header r ins = Inr (x, r', ins') \<Longrightarrow> pbuf r' = pbuf r \<and> bufsize r' = bufsize r"
  by (auto simp: read_header_def split: if_splits sum.splits prod.splits)

lemma grow_buf_bufsize:
  "grow_buf a r len = Inr (Some r') \<Longrightarrow> bufsize r \<le> bufsize r' \<and> curpos r' = curpos r"
  by (auto simp: grow_buf_def split: if_splits sum.splits prod.splits option.splits)

lemma read_body_bufsize:
  "read_body sg a r ins = Inr (rc, r', ins') \<Longrightarrow> bufsize r \<le> bufsize r'"
  by (auto simp: read_body_def Let_def dest: grow_buf_bufsize split: if_splits sum.splits prod.splits option.splits)

lemma read_cmd_bufsize:
  "read_cmd sg a r ins = Inr (rc, r', ins') \<Longrightarrow> bufsize r \<le> bufsize r'"
  using read_header_frame [of r ins] read_body_bufsize [of sg a _ _ rc r' ins']
  by (fastforce simp: read_cmd_def split: sum.splits prod.splits option.splits)

lemma read_cmds_bufsize:
  "read_cmds sg cs r ins = Inr (rcs, r', ins') \<Longrightarrow> bufsize r \<le> bufsize r'"
proof (induction cs arbitrary: r ins rcs)
  case Nil
  then show ?case by simp
next
  case (Cons c cs)
  obtain a v where c: "c = (a, v)" by (cases c)
  let ?r = "case v of None \<Rightarrow> r | Some x \<Rightarrow> r\<lparr>curpos := x\<rparr>"
  from Cons.prems c obtain rc r1 ins1 rcs1 where
    1: "read_cmd sg a ?r ins = Inr (rc, r1, ins1)" and
    2: "read_cmds sg cs r1 ins1 = Inr (rcs1, r', ins')"
    by (auto split: sum.splits prod.splits)
  have "bufsize ?r = bufsize r" by (cases v) simp_all
  with read_cmd_bufsize [OF 1] Cons.IH [OF 2] show ?case by simp
qed

lemma read_fd_pos:
  "read_fd h p off n ins = Inr (count, h', ins') \<Longrightarrow> 0 < count \<Longrightarrow> count \<le> n"
  by (auto simp: read_fd_def dest: sys_read_pos split: prod.splits sum.splits)

lemma read_header_cursor:
  assumes "read_header r ins = Inr (None, r1, ins1)" "c_int (curpos r)"
  shows "2 \<le> curpos r1 \<and> c_int (curpos r1)"
  using assms 
  by (auto simp: read_header_def c_int_def dest!: read_fd_pos split: if_splits sum.splits prod.splits)

lemma failed_growth:
  assumes h: "read_header r ins = Inr (None, r1, ins1)"
    and b: "buffer r1 = Some blk" "2 \<le> length blk"
    and g: "bufsize r1 < frame_len sg (blk ! 0) (blk ! 1)"
    and s: "0 \<le> bufsize r" "c_int (curpos r)"
  shows "read_cmd sg Alloc_fail r ins = Inr (- 1, r1, ins1)"
proof -
  let ?len = "frame_len sg (blk ! 0) (blk ! 1)"
  have c: "2 \<le> curpos r1" "c_int (curpos r1)"
    using read_header_cursor [OF h s(2)] by simp_all
  have l: "0 \<le> ?len" "?len \<le> 65535"
    by (rule frame_len_range)+
  have sz: "bufsize r1 = bufsize r"
    using read_header_frame [OF h] by simp
  have ci: "c_int (?len - curpos r1)" "c_int (?len - curpos r1 + 2)"
    using c l by (simp_all add: c_int_def)
  have "grow_buf Alloc_fail r1 ?len = Inr None"
    using b g s(1) sz by (simp add: grow_buf_def realloc_def buffer_def)
  then have "read_body sg Alloc_fail r1 ins1 = Inr (- 1, r1, ins1)"
    using b ci by (simp add: read_body_def buffer_def Let_def)
  then show ?thesis
    using h by (simp add: read_cmd_def)
qed

text \<open>
  Claim C6. Over every sequence of calls of \<^verbatim>\<open>read_cmd\<close>, whatever the allocator answers
  and wherever the caller sets the cursor between the calls, the capacity \<^verbatim>\<open>*size\<close> at the
  end is at least the capacity at the start. And when control reaches line 38 in the
  state \<open>q1\<close>, the decoded length exceeds the capacity and \<^verbatim>\<open>realloc\<close> returns \<^verbatim>\<open>NULL\<close>, the
  call returns \<open>-1\<close> and leaves exactly \<open>q1\<close>: the pointer and the capacity are those of
  the call's start, memory is as the header read left it, and nothing is taken from the
  stream.
\<close>

theorem capacity_never_shrinks:
  "(read_cmds sg cs r ins = Inr (rcs, r', ins') \<longrightarrow> bufsize r \<le> bufsize r')
   \<and> (read_header q qs = Inr (None, q1, qs1) \<and> buffer q1 = Some blk \<and> 2 \<le> length blk
        \<and> bufsize q1 < frame_len sg (blk ! 0) (blk ! 1) \<and> 0 \<le> bufsize q \<and> c_int (curpos q)
      \<longrightarrow> read_cmd sg Alloc_fail q qs = Inr (- 1, q1, qs1)
          \<and> pbuf q1 = pbuf q \<and> bufsize q1 = bufsize q)"
  using read_cmds_bufsize [of sg cs r ins rcs r' ins']
    failed_growth [of q qs q1 qs1 blk sg] read_header_frame [of q qs None q1 qs1]
  by blast

subsection \<open>A frame that arrives whole\<close>

lemma store_bytes_ok:
  assumes "h p = Some blk" "0 \<le> off" "off + int (length bs) \<le> int (length blk)"
  shows "store_bytes h p off bs = Inr (h(p \<mapsto> take (nat off) blk @ bs @ drop (nat off + length bs) blk))"
proof (cases "bs = []")
  case True
  with assms show ?thesis by (simp add: store_bytes_def fun_upd_idem)
next
  case False
  with assms show ?thesis by (simp add: store_bytes_def)
qed

lemma read_header_whole:
  assumes "curpos r = 0" "buffer r = Some blk" "2 \<le> length blk"
  shows "read_header r (Data (b0 # b1 # rest) # ins)
         = Inr (None, r\<lparr>mem := (mem r)(pbuf r \<mapsto> b0 # b1 # drop 2 blk), curpos := 2\<rparr>,
                if rest = [] then ins else Data rest # ins)"
proof -
  have "store_bytes (mem r) (pbuf r) 0 [b0, b1] = Inr ((mem r)(pbuf r \<mapsto> b0 # b1 # drop 2 blk))"
    using assms store_bytes_ok [of "mem r" "pbuf r" blk 0 "[b0, b1]"]
    by (simp add: buffer_def numeral_2_eq_2)
  then show ?thesis
    using assms by (simp add: read_header_def read_fd_def sys_read_def c_int_def)
qed

lemma read_body_whole:
  assumes c: "curpos r = 2"
    and b: "buffer r = Some (b0 # b1 # rest)"
    and l: "frame_len sg b0 b1 = int (length payload)" "payload \<noteq> []"
    and s: "int (length payload) \<le> bufsize r" "length payload \<le> length rest"
  shows "read_body sg a r (Data payload # ins)
         = Inr (2, r\<lparr>mem := (mem r)(pbuf r \<mapsto> b0 # b1 # payload @ drop (length payload) rest),
                     curpos := int (length payload) + 2\<rparr>, ins)"
proof -
  let ?L = "int (length payload)"
  have g: "grow_buf a r ?L = Inr (Some r)"
    using s by (simp add: grow_buf_def)
  have "store_bytes (mem r) (pbuf r) 2 payload
        = Inr ((mem r)(pbuf r \<mapsto> b0 # b1 # payload @ drop (length payload) rest))"
    using b s store_bytes_ok [of "mem r" "pbuf r" "b0 # b1 # rest" 2 payload]
    by (simp add: buffer_def numeral_2_eq_2)
  then have "read_fd (mem r) (pbuf r) 2 ?L (Data payload # ins)
        = Inr (?L, (mem r)(pbuf r \<mapsto> b0 # b1 # payload @ drop (length payload) rest), ins)"
    using l by (simp add: read_fd_def sys_read_def)
  moreover have "c_int (?L - 2)" "c_int ?L"
    using frame_len_range [of sg b0 b1] l by (simp_all add: c_int_def)
  ultimately show ?thesis
    using b c l g by (simp add: read_body_def buffer_def Let_def)
qed

text \<open>
  Claim C3, as amended. The inbound stream delivers \<open>[0x00, 0x05]\<close> and then, in a later
  delivery, \<open>[1, 2, 3, 4, 5]\<close>; the buffer has at least 7 bytes, the capacity is at least 5
  and the cursor is 0. The first call of \<^verbatim>\<open>read_cmd\<close> reads the header, finds the cursor
  at 2 and goes on to the body in the same call: it takes the second delivery too and
  returns 2 with the cursor at 7, the decoded length 5 and the body bytes \<open>[1, 2, 3, 4, 5]\<close>
  at offsets 2 to 6. Nothing is left for a second call.
\<close>

theorem scenario_A:
  assumes "curpos r = 0" "buffer r = Some blk" "7 \<le> length blk" "5 \<le> bufsize r"
  shows "read_cmd sg a r [Data [0, 5], Data [1, 2, 3, 4, 5]]
         = Inr (2, r\<lparr>mem := (mem r)(pbuf r \<mapsto> [0, 5, 1, 2, 3, 4, 5] @ drop 7 blk), curpos := 7\<rparr>, [])
         \<and> frame_len sg 0 5 = 5"
proof -
  let ?r1 = "r\<lparr>mem := (mem r)(pbuf r \<mapsto> 0 # 5 # drop 2 blk), curpos := 2\<rparr>"
  have h: "read_header r [Data [0, 5], Data [1, 2, 3, 4, 5]] = Inr (None, ?r1, [Data [1, 2, 3, 4, 5]])"
    using assms read_header_whole [of r blk 0 5 "[]"] by simp
  have f: "frame_len sg 0 5 = 5"
    by (simp add: frame_len_eq)
  have "read_body sg a ?r1 [Data [1, 2, 3, 4, 5]]
      = Inr (2, ?r1\<lparr>mem := (mem ?r1)(pbuf ?r1 \<mapsto> 0 # 5 # [1, 2, 3, 4, 5] @ drop (length [1, 2, 3, 4, 5 :: byte]) (drop 2 blk)),
                     curpos := int (length [1, 2, 3, 4, 5 :: byte]) + 2\<rparr>, [])"
    using assms f by (intro read_body_whole) (simp_all add: buffer_def)
  then show ?thesis
    using h f by (simp add: read_cmd_def eval_nat_numeral)
qed

subsection \<open>Reads that fail\<close>

lemma read_header_failed:
  assumes "curpos r < 2" "c_int (2 - curpos r)"
    and "sys_read (2 - curpos r) ins = (count, bs, ins')" "count \<le> 0"
  shows "read_header r ins = Inr (Some count, r, ins')"
proof -
  have "bs = []"
    using assms(3,4) by (rule sys_read_nonpos)
  with assms show ?thesis
    by (simp add: read_header_def read_fd_def store_bytes_def)
qed

lemma read_body_failed:
  assumes b: "buffer r = Some blk" "2 \<le> length blk"
    and c: "2 \<le> curpos r" "c_int (curpos r)"
    and g: "grow_buf a r (frame_len sg (blk ! 0) (blk ! 1)) = Inr (Some r1)"
    and s: "sys_read (frame_len sg (blk ! 0) (blk ! 1) - curpos r + 2) ins = (count, bs, ins')"
      "count \<le> 0"
  shows "read_body sg a r ins = Inr (0, r1, ins')"
proof -
  let ?len = "frame_len sg (blk ! 0) (blk ! 1)"
  have "bs = []"
    using s by (rule sys_read_nonpos)
  then have "read_fd (mem r1) (pbuf r1) (curpos r1) (?len - curpos r + 2) ins = Inr (count, mem r1, ins')"
    using s by (simp add: read_fd_def store_bytes_def)
  moreover have "c_int (?len - curpos r)" "c_int (?len - curpos r + 2)"
    using c frame_len_range [of sg "blk ! 0" "blk ! 1"] by (simp_all add: c_int_def)
  ultimately show ?thesis
    using b g s(2) by (simp add: read_body_def buffer_def Let_def)
qed

text \<open>
  Claim C5, as amended. A header-phase read that returns 0 or a negative value makes
  \<^verbatim>\<open>read_cmd\<close> return that very value (line 32), with the caller's state untouched. A
  body-phase read that returns 0 or a negative value makes \<^verbatim>\<open>read_cmd\<close> return 0 whatever
  the value was (line 59). So the two results differ only when the header-phase read
  returned a negative value; after a closed stream both are 0.
\<close>

theorem failure_codes:
  "(curpos r < 2 \<and> c_int (2 - curpos r) \<and> sys_read (2 - curpos r) ins = (count, bs, ins')
      \<and> count \<le> 0
    \<longrightarrow> read_cmd sg a r ins = Inr (count, r, ins'))
   \<and> (read_header q qs = Inr (None, q1, qs1) \<and> c_int (curpos q)
      \<and> buffer q1 = Some blk \<and> 2 \<le> length blk
      \<and> grow_buf a q1 (frame_len sg (blk ! 0) (blk ! 1)) = Inr (Some q2)
      \<and> sys_read (frame_len sg (blk ! 0) (blk ! 1) - curpos q1 + 2) qs1 = (count', bs', qs2)
      \<and> count' \<le> 0
    \<longrightarrow> read_cmd sg a q qs = Inr (0, q2, qs2))"
proof (intro conjI impI)
  assume "curpos r < 2 \<and> c_int (2 - curpos r) \<and> sys_read (2 - curpos r) ins = (count, bs, ins')
      \<and> count \<le> 0"
  then have "read_header r ins = Inr (Some count, r, ins')"
    by (intro read_header_failed) simp_all
  then show "read_cmd sg a r ins = Inr (count, r, ins')"
    by (simp add: read_cmd_def)
next
  assume h: "read_header q qs = Inr (None, q1, qs1) \<and> c_int (curpos q)
      \<and> buffer q1 = Some blk \<and> 2 \<le> length blk
      \<and> grow_buf a q1 (frame_len sg (blk ! 0) (blk ! 1)) = Inr (Some q2)
      \<and> sys_read (frame_len sg (blk ! 0) (blk ! 1) - curpos q1 + 2) qs1 = (count', bs', qs2)
      \<and> count' \<le> 0"
  then have c: "2 \<le> curpos q1" "c_int (curpos q1)"
    using read_header_cursor [of q qs q1 qs1] by simp_all
  have "read_body sg a q1 qs1 = Inr (0, q2, qs2)"
    using h c by (intro read_body_failed [of q1 blk a sg q2 qs1 count' bs' qs2]) simp_all
  with h show "read_cmd sg a q qs = Inr (0, q2, qs2)"
    by (simp add: read_cmd_def)
qed

subsection \<open>A frame that arrives in pieces\<close>

text \<open>
  The bytes of one frame reach the reader in any number of non-empty deliveries. While
  the frame is incomplete the cursor is \<open>c\<close>, the first \<open>c\<close> bytes of the buffer are the first
  \<open>c\<close> bytes of the frame and the stream holds the rest. One call moves the cursor forward
  and keeps all this; so some number of calls, at most one per delivery, completes the
  frame.
\<close>

lemma read_fd_chunk:
  assumes "h p = Some b" "ch \<noteq> []" "0 < n"
    and "off + min (nat n) (length ch) \<le> length b"
  shows "read_fd h p (int off) n (Data ch # ds)
         = Inr (int (min (nat n) (length ch)),
                h(p \<mapsto> take off b @ take (nat n) ch @ drop (off + min (nat n) (length ch)) b),
                if drop (nat n) ch = [] then ds else Data (drop (nat n) ch) # ds)"
proof -
  have ne: "take (nat n) ch \<noteq> []"
    using assms(2,3) by (cases ch) simp_all
  have "store_bytes h p (int off) (take (nat n) ch)
        = Inr (h(p \<mapsto> take off b @ take (nat n) ch @ drop (off + min (nat n) (length ch)) b))"
    using assms ne by (simp add: store_bytes_def min.commute)
  then show ?thesis
    using assms(3) by (simp add: read_fd_def sys_read_def min.commute)
qed

lemma prefix_extended:
  assumes "take c b = take c frame" "c \<le> length b" "c \<le> length frame" "xs @ ys = drop c frame"
  shows "take (c + length xs) (take c b @ xs @ drop (c + length xs) b) = take (c + length xs) frame"
proof -
  have "xs = take (length xs) (drop c frame)"
    using assms(4) by (metis append_eq_conv_conj)
  then have "take (c + length xs) frame = take c frame @ xs"
    by (simp add: take_add)
  moreover have "length (take c b) = c"
    using assms(2) by simp
  ultimately show ?thesis
    using assms(1) by (simp del: length_take)
qed

lemma rest_of_stream:
  assumes "xs @ ys = drop c frame"
  shows "ys = drop (c + length xs) frame"
  using assms by (metis append_eq_conv_conj drop_drop add.commute)

lemma body_step:
  assumes F: "length frame = nat L + 2" "frame_len sg (frame ! 0) (frame ! 1) = L"
    and S: "curpos r = int c" "buffer r = Some b" "take c b = take c frame"
      "nat L + 2 \<le> length b" "L \<le> bufsize r"
    and C: "2 \<le> c" "c < nat L + 2"
    and D: "ch \<noteq> []" "ch @ ys = drop c frame"
  shows "read_body sg a r (Data ch # ds)
         = Inr (2, r\<lparr>mem := (mem r)(pbuf r \<mapsto> take c b @ ch @ drop (c + length ch) b),
                     curpos := int (c + length ch)\<rparr>, ds)"
proof -
  have "(take c b) ! 0 = (take c frame) ! 0" "(take c b) ! 1 = (take c frame) ! 1"
    using S(3) by simp_all
  then have hd: "b ! 0 = frame ! 0" "b ! 1 = frame ! 1"
    using C(1) by simp_all
  have L: "0 \<le> L" "L \<le> 65535"
    using frame_len_range [of sg "frame ! 0" "frame ! 1"] F(2) by simp_all
  have "length (ch @ ys) = nat L + 2 - c"
    using D(2) F(1) by simp
  then have len: "length ch \<le> nat L + 2 - c"
    by simp
  let ?d = "L - int c + 2"
  have d: "0 < ?d" "length ch \<le> nat ?d"
    using C L len by linarith+
  have ci: "c_int (L - int c)" "c_int ?d"
    using L C by (simp_all add: c_int_def)
  have g: "grow_buf a r L = Inr (Some r)"
    using S(5) by (simp add: grow_buf_def)
  have m: "min (nat ?d) (length ch) = length ch" "take (nat ?d) ch = ch" "drop (nat ?d) ch = []"
    using d(2) by simp_all
  have "read_fd (mem r) (pbuf r) (int c) ?d (Data ch # ds)
        = Inr (int (length ch), (mem r)(pbuf r \<mapsto> take c b @ ch @ drop (c + length ch) b), ds)"
    using read_fd_chunk [of "mem r" "pbuf r" b ch ?d c ds] S(2,4) D(1) d(1) len C(2)
    unfolding m by (simp add: buffer_def)
  then show ?thesis
    using S(1,2,4) hd F(2) ci g D(1) by (simp add: read_body_def buffer_def Let_def)
qed

lemma header_step:
  assumes S: "curpos r = int c" "buffer r = Some b" "2 \<le> length b"
    and C: "c < 2"
    and D: "ch \<noteq> []"
  shows "read_header r (Data ch # ds)
         = Inr (if c + min (2 - c) (length ch) < 2 then Some 1 else None,
                r\<lparr>mem := (mem r)(pbuf r \<mapsto> take c b @ take (2 - c) ch
                                          @ drop (c + min (2 - c) (length ch)) b),
                  curpos := int (c + min (2 - c) (length ch))\<rparr>,
                if drop (2 - c) ch = [] then ds else Data (drop (2 - c) ch) # ds)"
proof -
  have n: "nat (2 - int c) = 2 - c"
    by simp
  have k: "0 < min (2 - c) (length ch)"
    using C D by simp
  have "read_fd (mem r) (pbuf r) (int c) (2 - int c) (Data ch # ds)
        = Inr (int (min (2 - c) (length ch)),
               (mem r)(pbuf r \<mapsto> take c b @ take (2 - c) ch @ drop (c + min (2 - c) (length ch)) b),
               if drop (2 - c) ch = [] then ds else Data (drop (2 - c) ch) # ds)"
    using read_fd_chunk [of "mem r" "pbuf r" b ch "2 - int c" c ds] S(2,3) C D
    unfolding n by (simp add: buffer_def)
  moreover have "c_int (2 - int c)"
    using C by (simp add: c_int_def)
  ultimately show ?thesis
    using S(1) C k by (simp add: read_header_def)
qed

lemma body_call:
  assumes F: "length frame = nat L + 2" "frame_len sg (frame ! 0) (frame ! 1) = L"
    and S: "curpos r = int c" "buffer r = Some b" "take c b = take c frame"
      "nat L + 2 \<le> length b" "L \<le> bufsize r"
    and C: "2 \<le> c" "c < nat L + 2"
    and D: "concat chunks = drop c frame" "[] \<notin> set chunks"
  shows "\<exists>r' c' b' chunks'.
           read_body sg a r (map Data chunks) = Inr (2, r', map Data chunks')
           \<and> curpos r' = int c' \<and> buffer r' = Some b' \<and> take c' b' = take c' frame
           \<and> length b' = length b \<and> bufsize r' = bufsize r
           \<and> c < c' \<and> c' \<le> nat L + 2
           \<and> concat chunks' = drop c' frame \<and> [] \<notin> set chunks'
           \<and> length chunks' < length chunks"
proof -
  have "drop c frame \<noteq> []"
    using C(2) F(1) by simp
  with D obtain ch rest where ch: "chunks = ch # rest" "ch \<noteq> []" "ch @ concat rest = drop c frame"
    by (cases chunks) auto
  let ?c' = "c + length ch"
  let ?b' = "take c b @ ch @ drop ?c' b"
  let ?r' = "r\<lparr>mem := (mem r)(pbuf r \<mapsto> ?b'), curpos := int ?c'\<rparr>"
  have "length (ch @ concat rest) = nat L + 2 - c"
    using ch(3) F(1) by simp
  then have le: "?c' \<le> nat L + 2"
    using C(2) by simp
  have 1: "read_body sg a r (map Data chunks) = Inr (2, ?r', map Data rest)"
    using body_step [OF F S C ch(2,3)] ch(1) by simp
  have 2: "take ?c' ?b' = take ?c' frame"
    using S(3,4) C(2) F(1) ch(3) by (intro prefix_extended [where ys = "concat rest"]) simp_all
  have 3: "length ?b' = length b"
    using le S(4) by simp
  have 4: "concat rest = drop ?c' frame"
    using ch(3) by (rule rest_of_stream)
  have 5: "[] \<notin> set rest" "length rest < length chunks" "c < ?c'"
    using D(2) ch(1,2) by simp_all
  show ?thesis
    using 1 2 3 4 5 le by (intro exI [of _ ?r'] exI [of _ ?c'] exI [of _ ?b'] exI [of _ rest])
      (simp add: buffer_def)
qed

lemma one_call:
  assumes F: "length frame = nat L + 2" "frame_len sg (frame ! 0) (frame ! 1) = L" "1 \<le> L"
    and S: "curpos r = int c" "buffer r = Some b" "take c b = take c frame"
      "nat L + 2 \<le> length b" "L \<le> bufsize r"
    and C: "c < nat L + 2"
    and D: "concat chunks = drop c frame" "[] \<notin> set chunks"
  shows "\<exists>rc r' c' b' chunks'.
           read_cmd sg a r (map Data chunks) = Inr (rc, r', map Data chunks')
           \<and> rc = (if c' < 2 then 1 else 2)
           \<and> curpos r' = int c' \<and> buffer r' = Some b' \<and> take c' b' = take c' frame
           \<and> length b' = length b \<and> bufsize r' = bufsize r
           \<and> c < c' \<and> c' \<le> nat L + 2
           \<and> concat chunks' = drop c' frame \<and> [] \<notin> set chunks'
           \<and> length chunks' < length chunks"
proof (cases "2 \<le> c")
  case True
  then have "read_header r (map Data chunks) = Inr (None, r, map Data chunks)"
    using S(1) by (simp add: read_header_def)
  then have e: "read_cmd sg a r (map Data chunks) = read_body sg a r (map Data chunks)"
    by (simp add: read_cmd_def)
  from body_call [OF F(1,2) S True C D, of a]
  obtain r' c' b' chunks' where o:
    "read_body sg a r (map Data chunks) = Inr (2, r', map Data chunks')"
    "curpos r' = int c'" "buffer r' = Some b'" "take c' b' = take c' frame"
    "length b' = length b" "bufsize r' = bufsize r" "c < c'" "c' \<le> nat L + 2"
    "concat chunks' = drop c' frame" "[] \<notin> set chunks'" "length chunks' < length chunks"
    by (elim exE conjE) (rule that)
  have f: "read_cmd sg a r (map Data chunks) = Inr (2, r', map Data chunks')"
    using e o(1) by simp
  have rc: "2 = (if c' < 2 then 1 else 2 :: int)"
    using True o(7) by simp
  have "read_cmd sg a r (map Data chunks) = Inr (2, r', map Data chunks')
      \<and> 2 = (if c' < 2 then 1 else 2 :: int)
      \<and> curpos r' = int c' \<and> buffer r' = Some b' \<and> take c' b' = take c' frame
      \<and> length b' = length b \<and> bufsize r' = bufsize r
      \<and> c < c' \<and> c' \<le> nat L + 2
      \<and> concat chunks' = drop c' frame \<and> [] \<notin> set chunks'
      \<and> length chunks' < length chunks"
    using f rc o(2-11) by (intro conjI)
  then show ?thesis
    by - ((rule exI)+, assumption)
next
  case False
  then have c2: "c < 2" by simp
  have "drop c frame \<noteq> []"
    using C F(1) by simp
  with D obtain ch rest where ch: "chunks = ch # rest" "ch \<noteq> []" "ch @ concat rest = drop c frame"
    by (cases chunks) auto
  let ?k = "min (2 - c) (length ch)"
  let ?c1 = "c + ?k"
  let ?b1 = "take c b @ take (2 - c) ch @ drop ?c1 b"
  let ?r1 = "r\<lparr>mem := (mem r)(pbuf r \<mapsto> ?b1), curpos := int ?c1\<rparr>"
  let ?chunks1 = "if drop (2 - c) ch = [] then rest else drop (2 - c) ch # rest"
  have b2: "2 \<le> length b"
    using S(4) by simp
  have h: "read_header r (map Data chunks)
           = Inr (if ?c1 < 2 then Some 1 else None, ?r1, map Data ?chunks1)"
    using header_step [OF S(1,2) b2 c2 ch(2), of "map Data rest"] ch(1) by simp
  have k: "length (take (2 - c) ch) = ?k" "0 < ?k" "?c1 \<le> 2"
    using c2 ch(2) by (simp_all add: min.commute)
  have split: "take (2 - c) ch @ (drop (2 - c) ch @ concat rest) = drop c frame"
    using ch(3) by (simp flip: append_assoc)
  have i1: "take ?c1 ?b1 = take ?c1 frame"
    using prefix_extended [OF S(3) _ _ split] S(4) C F(1) k(1) by simp
  have i2: "length ?b1 = length b"
    using k S(4) by simp
  have "concat ?chunks1 = drop (2 - c) ch @ concat rest"
    by simp
  also have "\<dots> = drop ?c1 frame"
    using rest_of_stream [OF split] unfolding k(1) .
  finally have i3: "concat ?chunks1 = drop ?c1 frame" .
  have i4: "[] \<notin> set ?chunks1" "length ?chunks1 \<le> length chunks"
    using D(2) ch(1) by auto
  have s1: "curpos ?r1 = int ?c1" "buffer ?r1 = Some ?b1" "bufsize ?r1 = bufsize r"
    by (simp_all add: buffer_def)
  show ?thesis
  proof (cases "?c1 < 2")
    case True
    then have "drop (2 - c) ch = []"
      by simp
    then have len: "length ?chunks1 < length chunks"
      using ch(1) by simp
    have "read_header r (map Data chunks) = Inr (Some 1, ?r1, map Data ?chunks1)"
      using h unfolding if_P [OF True] .
    then have f: "read_cmd sg a r (map Data chunks) = Inr (1, ?r1, map Data ?chunks1)"
      unfolding read_cmd_def by simp
    have lt: "c < ?c1" "?c1 \<le> nat L + 2"
      using k(2) True by simp_all
    have rc: "1 = (if ?c1 < 2 then 1 else 2 :: int)"
      unfolding if_P [OF True] ..
    have "read_cmd sg a r (map Data chunks) = Inr (1, ?r1, map Data ?chunks1)
        \<and> 1 = (if ?c1 < 2 then 1 else 2 :: int)
        \<and> curpos ?r1 = int ?c1 \<and> buffer ?r1 = Some ?b1 \<and> take ?c1 ?b1 = take ?c1 frame
        \<and> length ?b1 = length b \<and> bufsize ?r1 = bufsize r
        \<and> c < ?c1 \<and> ?c1 \<le> nat L + 2
        \<and> concat ?chunks1 = drop ?c1 frame \<and> [] \<notin> set ?chunks1
        \<and> length ?chunks1 < length chunks"
      using f rc s1 i1 i2 lt i3 i4(1) len by (intro conjI)
    then show ?thesis
      by - ((rule exI)+, assumption)
  next
    case False
    with k(3) have e: "?c1 = 2" by simp
    have "read_header r (map Data chunks) = Inr (None, ?r1, map Data ?chunks1)"
      using h unfolding if_not_P [OF False] .
    then have r: "read_cmd sg a r (map Data chunks) = read_body sg a ?r1 (map Data ?chunks1)"
      unfolding read_cmd_def by simp
    have S1: "curpos ?r1 = int 2" "buffer ?r1 = Some ?b1" "take 2 ?b1 = take 2 frame"
      "nat L + 2 \<le> length ?b1" "L \<le> bufsize ?r1"
      using s1 i1 i2 S(4,5) e by simp_all
    have C1: "(2::nat) \<le> 2" "2 < nat L + 2"
      using F(3) by simp_all
    have D1: "concat ?chunks1 = drop 2 frame"
      using i3 e by simp
    from body_call [OF F(1,2) S1 C1 D1 i4(1), of a]
    obtain r' c' b' chunks' where o:
      "read_body sg a ?r1 (map Data ?chunks1) = Inr (2, r', map Data chunks')"
      "curpos r' = int c'" "buffer r' = Some b'" "take c' b' = take c' frame"
      "length b' = length ?b1" "bufsize r' = bufsize ?r1" "2 < c'" "c' \<le> nat L + 2"
      "concat chunks' = drop c' frame" "[] \<notin> set chunks'" "length chunks' < length ?chunks1"
      by (elim exE conjE) (rule that)
    have f: "read_cmd sg a r (map Data chunks) = Inr (2, r', map Data chunks')"
      using r o(1) by simp
    have g: "length b' = length b" "bufsize r' = bufsize r" "c < c'" "length chunks' < length chunks"
    proof -
      show "length b' = length b" using o(5) i2 by (rule trans)
      show "bufsize r' = bufsize r" using o(6) s1(3) by (rule trans)
      show "c < c'" using c2 o(7) by (rule less_trans)
      show "length chunks' < length chunks" using o(11) i4(2) by (rule less_le_trans)
    qed
    have rc: "2 = (if c' < 2 then 1 else 2 :: int)"
      using o(7) by simp
    have "read_cmd sg a r (map Data chunks) = Inr (2, r', map Data chunks')
        \<and> 2 = (if c' < 2 then 1 else 2 :: int)
        \<and> curpos r' = int c' \<and> buffer r' = Some b' \<and> take c' b' = take c' frame
        \<and> length b' = length b \<and> bufsize r' = bufsize r
        \<and> c < c' \<and> c' \<le> nat L + 2
        \<and> concat chunks' = drop c' frame \<and> [] \<notin> set chunks'
        \<and> length chunks' < length chunks"
      using f rc o(2,3,4,8,9,10) g by (intro conjI)
    then show ?thesis
      by - ((rule exI)+, assumption)
  qed
qed

lemma concat_no_empty: "concat xss = [] \<Longrightarrow> [] \<notin> set xss \<Longrightarrow> xss = []"
  by (cases xss) auto

lemma read_until_complete:
  assumes F: "length frame = nat L + 2" "frame_len sg (frame ! 0) (frame ! 1) = L" "1 \<le> L"
    and S: "curpos r = int c" "buffer r = Some b" "take c b = take c frame"
      "nat L + 2 \<le> length b" "L \<le> bufsize r"
    and C: "c < nat L + 2"
    and D: "concat chunks = drop c frame" "[] \<notin> set chunks"
  shows "\<exists>n rcs r' b'.
           read_cmds sg (replicate n (a, None)) r (map Data chunks) = Inr (rcs, r', [])
           \<and> n \<le> length chunks \<and> rcs \<noteq> [] \<and> last rcs = 2
           \<and> curpos r' = L + 2 \<and> buffer r' = Some b' \<and> take (nat L + 2) b' = frame"
  using S C D
proof (induction "length chunks" arbitrary: chunks r c b rule: less_induct)
  case less
  from one_call [OF F less.prems(1-5) less.prems(6) less.prems(7,8), of a]
  obtain rc r1 c1 b1 chunks1 where o:
    "read_cmd sg a r (map Data chunks) = Inr (rc, r1, map Data chunks1)"
    "rc = (if c1 < 2 then 1 else 2)"
    "curpos r1 = int c1" "buffer r1 = Some b1" "take c1 b1 = take c1 frame"
    "length b1 = length b" "bufsize r1 = bufsize r" "c < c1" "c1 \<le> nat L + 2"
    "concat chunks1 = drop c1 frame" "[] \<notin> set chunks1" "length chunks1 < length chunks"
    by (elim exE conjE) (rule that)
  show ?case
  proof (cases "c1 = nat L + 2")
    case True
    have "concat chunks1 = []"
      using o(10) True F(1) by simp
    then have e: "chunks1 = []"
      using o(11) by (rule concat_no_empty)
    have 1: "read_cmds sg (replicate 1 (a, None)) r (map Data chunks) = Inr ([rc], r1, [])"
      using o(1) e by simp
    have 2: "rc = 2"
      using o(2) True F(3) by simp
    have 3: "curpos r1 = L + 2" "take (nat L + 2) b1 = frame"
      using o(3,5) True F(1,3) by simp_all
    have 4: "1 \<le> length chunks"
      using o(12) by simp
    have "read_cmds sg (replicate 1 (a, None)) r (map Data chunks) = Inr ([rc], r1, [])
        \<and> 1 \<le> length chunks \<and> [rc] \<noteq> [] \<and> last [rc] = 2
        \<and> curpos r1 = L + 2 \<and> buffer r1 = Some b1 \<and> take (nat L + 2) b1 = frame"
      using 1 2 3 4 o(4) by simp
    then show ?thesis
      by - ((rule exI)+, assumption)
  next
    case False
    then have lt: "c1 < nat L + 2"
      using o(9) by simp
    have S1: "nat L + 2 \<le> length b1" "L \<le> bufsize r1"
      using o(6,7) less.prems(4,5) by simp_all
    from less.hyps [OF o(12) o(3,4,5) S1 lt o(10,11)]
    obtain n rcs r' b' where i:
      "read_cmds sg (replicate n (a, None)) r1 (map Data chunks1) = Inr (rcs, r', [])"
      "n \<le> length chunks1" "rcs \<noteq> []" "last rcs = 2"
      "curpos r' = L + 2" "buffer r' = Some b'" "take (nat L + 2) b' = frame"
      by (elim exE conjE) (rule that)
    have 1: "read_cmds sg (replicate (Suc n) (a, None)) r (map Data chunks) = Inr (rc # rcs, r', [])"
      using o(1) i(1) by simp
    have 2: "Suc n \<le> length chunks" "rc # rcs \<noteq> []" "last (rc # rcs) = 2"
      using i(2,3,4) o(12) by simp_all
    have "read_cmds sg (replicate (Suc n) (a, None)) r (map Data chunks) = Inr (rc # rcs, r', [])
        \<and> Suc n \<le> length chunks \<and> rc # rcs \<noteq> [] \<and> last (rc # rcs) = 2
        \<and> curpos r' = L + 2 \<and> buffer r' = Some b' \<and> take (nat L + 2) b' = frame"
      using 1 2 i(5,6,7) by (intro conjI)
    then show ?thesis
      by - ((rule exI)+, assumption)
  qed
qed

section \<open>The writer\<close>

lemma accepted_pos:
  assumes "\<forall>w\<in>set ws. \<exists>k. w = Accept (Suc k)" "0 < n"
  shows "0 < accepted ws n \<and> accepted ws n \<le> n"
proof (cases ws)
  case Nil
  with assms show ?thesis by simp
next
  case (Cons w ws')
  with assms obtain k where "w = Accept (Suc k)" by auto
  with Cons assms show ?thesis by simp
qed

lemma sys_write_ok:
  assumes a: "\<forall>w\<in>set (pending s). \<exists>k. w = Accept (Suc k)"
    and n: "0 \<le> off" "0 < n" "off + n \<le> int (length buf)"
  shows "\<exists>i. 0 < i \<and> i \<le> n \<and>
           sys_write buf off n s
           = Inr (i, \<lparr>pending = tl (pending s), sent = sent s @ take (nat i) (drop (nat off) buf)\<rparr>)"
proof -
  let ?i = "accepted (pending s) n"
  have i: "0 < ?i" "?i \<le> n"
    using accepted_pos [OF a n(2)] by simp_all
  then have "sys_write buf off n s
      = Inr (?i, \<lparr>pending = tl (pending s), sent = sent s @ take (nat ?i) (drop (nat off) buf)\<rparr>)"
    using n by (simp add: sys_write_def Let_def)
  with i show ?thesis by blast
qed

lemma set_tl_subset: "x \<in> set (tl ws) \<Longrightarrow> x \<in> set ws"
  by (cases ws) simp_all

lemma write_loop_ok:
  assumes "\<forall>w\<in>set (pending s). \<exists>k. w = Accept (Suc k)"
    and "0 \<le> wrote" "wrote < len" "len \<le> int (length buf)"
  shows "\<exists>s'. write_loop buf len wrote s = Inr (len, s')
           \<and> sent s' = sent s @ take (nat (len - wrote)) (drop (nat wrote) buf)
           \<and> (\<forall>w\<in>set (pending s'). \<exists>k. w = Accept (Suc k))"
  using assms
proof (induction buf len wrote s rule: write_loop.induct)
  case (1 buf len wrote s)
  from sys_write_ok [OF "1.prems"(1) "1.prems"(2), of "len - wrote" buf] "1.prems"
  obtain i where i: "0 < i" "i \<le> len - wrote"
    and w: "sys_write buf wrote (len - wrote) s
           = Inr (i, \<lparr>pending = tl (pending s), sent = sent s @ take (nat i) (drop (nat wrote) buf)\<rparr>)"
    by auto
  let ?s1 = "\<lparr>pending = tl (pending s), sent = sent s @ take (nat i) (drop (nat wrote) buf)\<rparr>"
  have acc: "\<forall>w\<in>set (pending ?s1). \<exists>k. w = Accept (Suc k)"
    using "1.prems"(1) by (auto dest: set_tl_subset)
  show ?case
  proof (cases "wrote + i < len")
    case True
    have "\<exists>s'. write_loop buf len (wrote + i) ?s1 = Inr (len, s')
           \<and> sent s' = sent ?s1 @ take (nat (len - (wrote + i))) (drop (nat (wrote + i)) buf)
           \<and> (\<forall>w\<in>set (pending s'). \<exists>k. w = Accept (Suc k))"
      using i True "1.prems" acc by (intro "1.IH" [OF w refl]) simp_all
    then obtain s' where s': "write_loop buf len (wrote + i) ?s1 = Inr (len, s')"
      "sent s' = sent ?s1 @ take (nat (len - (wrote + i))) (drop (nat (wrote + i)) buf)"
      "\<forall>w\<in>set (pending s'). \<exists>k. w = Accept (Suc k)"
      by blast
    have split: "nat (len - wrote) = nat i + nat (len - (wrote + i))"
      using i True by simp
    have "take (nat (len - wrote)) (drop (nat wrote) buf)
          = take (nat i) (drop (nat wrote) buf)
            @ take (nat (len - (wrote + i))) (drop (nat (wrote + i)) buf)"
      using i "1.prems"(2) unfolding split take_add by (simp add: nat_add_distrib add.commute)
    with s' have "sent s' = sent s @ take (nat (len - wrote)) (drop (nat wrote) buf)"
      by simp
    moreover have "write_loop buf len wrote s = Inr (len, s')"
      using w i True s'(1) by (subst write_loop.simps) simp
    ultimately show ?thesis using s'(3) by blast
  next
    case False
    with i have e: "i = len - wrote" by simp
    have "write_loop buf len wrote s = Inr (len, ?s1)"
      using w i False by (subst write_loop.simps) simp
    with e acc show ?thesis by auto
  qed
qed

lemma write_exact_ok:
  assumes "\<forall>w\<in>set (pending s). \<exists>k. w = Accept (Suc k)" "0 < len" "len \<le> int (length buf)"
  shows "\<exists>s'. write_exact buf len s = Inr (len, s')
           \<and> sent s' = sent s @ take (nat len) buf
           \<and> (\<forall>w\<in>set (pending s'). \<exists>k. w = Accept (Suc k))"
  using write_loop_ok [OF assms(1), of 0 len buf] assms by (simp add: write_exact_def)

lemma int_and_255: "(x::int) AND 255 = x mod 256"
proof -
  have "x AND mask 8 = x mod 2 ^ 8"
    by (simp add: take_bit_eq_mod flip: take_bit_eq_mask)
  then show ?thesis
    by (simp add: mask_eq_exp_minus_1)
qed

lemma header_bytes:
  assumes "0 \<le> L" "L \<le> 65535"
  shows "frame_len sg (word_of_int (drop_bit 8 L AND 0xff)) (word_of_int (L AND 0xff)) = L"
proof -
  have d: "drop_bit 8 L = L div 256" by (simp add: drop_bit_eq_div)
  have "0 \<le> L div 256" "L div 256 < 256" using assms by simp_all
  then have 1: "uint (word_of_int (drop_bit 8 L AND 0xff) :: byte) = L div 256"
    by (simp add: int_and_255 d uint_word_of_int take_bit_eq_mod)
  have 2: "uint (word_of_int (L AND 0xff) :: byte) = L mod 256"
    by (simp add: int_and_255 uint_word_of_int take_bit_eq_mod)
  show ?thesis unfolding frame_len_eq 1 2 by simp
qed

lemma write_cmd_ok:
  assumes a: "\<forall>w\<in>set (pending s). \<exists>k. w = Accept (Suc k)"
    and l: "0 < index b" "index b \<le> int (length (buff b))"
  shows "\<exists>s'. write_cmd b s = Inr (index b, s')
           \<and> sent s' = sent s @ [word_of_int (drop_bit 8 (index b) AND 0xff),
                                  word_of_int (index b AND 0xff)] @ take (nat (index b)) (buff b)"
proof -
  let ?hi = "word_of_int (drop_bit 8 (index b) AND 0xff) :: byte"
  let ?lo = "word_of_int (index b AND 0xff) :: byte"
  from write_exact_ok [OF a, of 1 "[?hi]"]
  obtain s1 where s1: "write_exact [?hi] 1 s = Inr (1, s1)" "sent s1 = sent s @ [?hi]"
    "\<forall>w\<in>set (pending s1). \<exists>k. w = Accept (Suc k)"
    by auto
  from write_exact_ok [OF s1(3), of 1 "[?lo]"]
  obtain s2 where s2: "write_exact [?lo] 1 s1 = Inr (1, s2)" "sent s2 = sent s1 @ [?lo]"
    "\<forall>w\<in>set (pending s2). \<exists>k. w = Accept (Suc k)"
    by auto
  from write_exact_ok [OF s2(3) l]
  obtain s3 where s3: "write_exact (buff b) (index b) s2 = Inr (index b, s3)"
    "sent s3 = sent s2 @ take (nat (index b)) (buff b)"
    by auto
  have "write_cmd b s = Inr (index b, s3)"
    using s1(1) s2(1) s3(1) by (simp add: write_cmd_def)
  with s1(2) s2(2) s3(2) show ?thesis by simp
qed

text \<open>
  Claim C7, as amended. Let the payload have a length \<open>L\<close> from 1 to 65535, let every
  write be accepted (wholly or in part), and let the reader start with the cursor at 0, a
  buffer of at least \<open>L + 2\<close> bytes and a capacity of at least \<open>L\<close>. Then \<^verbatim>\<open>write_cmd\<close>
  returns \<open>L\<close> and has transmitted two header bytes that decode to \<open>L\<close>, followed by the
  payload. Given those bytes in one delivery, \<^verbatim>\<open>read_cmd\<close> returns 2 with the cursor at
  \<open>L + 2\<close> and the transmitted bytes at the start of the buffer, the payload at offsets 2
  to \<open>L + 1\<close>. Given them in any number of non-empty deliveries, a sequence of calls of
  \<^verbatim>\<open>read_cmd\<close>, at most one per delivery, ends with a call that returns 2, the stream
  used up, the cursor at \<open>L + 2\<close> and the same bytes at the start of the buffer.
\<close>

theorem roundtrip:
  assumes L: "1 \<le> index b" "index b \<le> 65535" "index b \<le> int (length (buff b))"
    and a: "\<forall>w\<in>set ws. \<exists>k. w = Accept (Suc k)"
    and r: "curpos r = 0" "buffer r = Some blk" "index b + 2 \<le> int (length blk)" "index b \<le> bufsize r"
  shows "\<exists>s'. write_cmd b \<lparr>pending = ws, sent = []\<rparr> = Inr (index b, s')
           \<and> drop 2 (sent s') = take (nat (index b)) (buff b)
           \<and> frame_len sg (sent s' ! 0) (sent s' ! 1) = index b
           \<and> read_cmd sg al r [Data (sent s')]
               = Inr (2, r\<lparr>mem := (mem r)(pbuf r \<mapsto> sent s' @ drop (nat (index b) + 2) blk),
                           curpos := index b + 2\<rparr>, [])
           \<and> (\<forall>chunks. concat chunks = sent s' \<and> [] \<notin> set chunks \<longrightarrow>
                (\<exists>n rcs r' b'.
                   read_cmds sg (replicate n (al, None)) r (map Data chunks) = Inr (rcs, r', [])
                   \<and> n \<le> length chunks \<and> rcs \<noteq> [] \<and> last rcs = 2
                   \<and> curpos r' = index b + 2 \<and> buffer r' = Some b'
                   \<and> take (nat (index b) + 2) b' = sent s'))"
proof -
  let ?L = "index b"
  let ?hi = "word_of_int (drop_bit 8 ?L AND 0xff) :: byte"
  let ?lo = "word_of_int (?L AND 0xff) :: byte"
  let ?p = "take (nat ?L) (buff b)"
  from write_cmd_ok [of "\<lparr>pending = ws, sent = []\<rparr>" b] a L
  obtain s' where w: "write_cmd b \<lparr>pending = ws, sent = []\<rparr> = Inr (?L, s')"
    and s: "sent s' = ?hi # ?lo # ?p"
    by auto
  have lp: "int (length ?p) = ?L" "?p \<noteq> []"
    using L by auto
  have f: "frame_len sg ?hi ?lo = ?L"
    using L by (intro header_bytes) simp_all
  have d: "drop 2 (sent s') = ?p" "frame_len sg (sent s' ! 0) (sent s' ! 1) = ?L"
    using s f by simp_all
  have len: "length (sent s') = nat ?L + 2"
    using s lp(1) by simp
  let ?r1 = "r\<lparr>mem := (mem r)(pbuf r \<mapsto> ?hi # ?lo # drop 2 blk), curpos := 2\<rparr>"
  have h: "read_header r [Data (?hi # ?lo # ?p)] = Inr (None, ?r1, [Data ?p])"
    using r lp read_header_whole [of r blk ?hi ?lo ?p "[]"] by simp
  have "read_body sg al ?r1 (Data ?p # [])
      = Inr (2, ?r1\<lparr>mem := (mem ?r1)(pbuf ?r1 \<mapsto> ?hi # ?lo # ?p @ drop (length ?p) (drop 2 blk)),
                     curpos := int (length ?p) + 2\<rparr>, [])"
    using r lp f L by (intro read_body_whole) (simp_all add: buffer_def)
  then have whole: "read_cmd sg al r [Data (sent s')]
      = Inr (2, r\<lparr>mem := (mem r)(pbuf r \<mapsto> sent s' @ drop (nat ?L + 2) blk),
                  curpos := ?L + 2\<rparr>, [])"
    using h s lp L by (simp add: read_cmd_def add.commute)
  have parts: "\<exists>n rcs r' b'.
      read_cmds sg (replicate n (al, None)) r (map Data chunks) = Inr (rcs, r', [])
      \<and> n \<le> length chunks \<and> rcs \<noteq> [] \<and> last rcs = 2
      \<and> curpos r' = ?L + 2 \<and> buffer r' = Some b' \<and> take (nat ?L + 2) b' = sent s'"
    if c: "concat chunks = sent s'" "[] \<notin> set chunks" for chunks
  proof (rule read_until_complete [where c = 0 and b = blk])
    show "length (sent s') = nat ?L + 2" by (rule len)
    show "frame_len sg (sent s' ! 0) (sent s' ! 1) = ?L" by (rule d(2))
    show "1 \<le> ?L" by (rule L(1))
    show "curpos r = int 0" using r(1) by simp
    show "buffer r = Some blk" by (rule r(2))
    show "take 0 blk = take 0 (sent s')" by simp
    show "nat ?L + 2 \<le> length blk" using r(3) L(1) by simp
    show "?L \<le> bufsize r" by (rule r(4))
    show "0 < nat ?L + 2" by simp
    show "concat chunks = drop 0 (sent s')" using c(1) by simp
    show "[] \<notin> set chunks" by (rule c(2))
  qed
  have "write_cmd b \<lparr>pending = ws, sent = []\<rparr> = Inr (?L, s')
      \<and> drop 2 (sent s') = ?p
      \<and> frame_len sg (sent s' ! 0) (sent s' ! 1) = ?L
      \<and> read_cmd sg al r [Data (sent s')]
          = Inr (2, r\<lparr>mem := (mem r)(pbuf r \<mapsto> sent s' @ drop (nat ?L + 2) blk),
                      curpos := ?L + 2\<rparr>, [])
      \<and> (\<forall>chunks. concat chunks = sent s' \<and> [] \<notin> set chunks \<longrightarrow>
            (\<exists>n rcs r' b'.
               read_cmds sg (replicate n (al, None)) r (map Data chunks) = Inr (rcs, r', [])
               \<and> n \<le> length chunks \<and> rcs \<noteq> [] \<and> last rcs = 2
               \<and> curpos r' = ?L + 2 \<and> buffer r' = Some b'
               \<and> take (nat ?L + 2) b' = sent s'))"
    using w d whole parts by (intro conjI allI impI) (assumption | (elim conjE, assumption))+
  then show ?thesis
    by (rule exI)
qed

section \<open>The reply encoder\<close>

lemma encode_reply_steps:
  assumes "ei_x_new_with_version lib = (e1, b1)"
    and "ei_x_encode_tuple_header lib b1 ths = (e2, b2)"
    and "ei_x_encode_atom lib b2 string = (e3, b3)"
    and "ei_x_encode_ulong lib b3 v = (e4, b4)"
  shows "encode_reply lib ths string v
         = (if e1 \<noteq> 0 then (e1, b1) else if e2 \<noteq> 0 then (e2, b2)
            else if e3 \<noteq> 0 then (e3, b3) else (e4, b4))"
  using assms by (simp add: encode_reply_def)

text \<open>
  Claim C9. Let \<open>e1\<close> to \<open>e4\<close> be what the four encoder calls return, each on the buffer the
  call before it left. If one of them is not 0, \<^verbatim>\<open>send_answer_string_ulong\<close> returns \<open>-1\<close>
  and the outbound stream is as it was: \<^verbatim>\<open>write_cmd\<close> is not called. And on every return,
  failed or not, exactly one buffer has been handed to \<^verbatim>\<open>ei_x_free\<close>: the encode buffer
  as the last encoder call that ran left it.
\<close>

theorem failed_encoding_sends_nothing:
  assumes "ei_x_new_with_version lib = (e1, b1)"
    and "ei_x_encode_tuple_header lib b1 ths = (e2, b2)"
    and "ei_x_encode_atom lib b2 string = (e3, b3)"
    and "ei_x_encode_ulong lib b3 v = (e4, b4)"
  shows "(e1 \<noteq> 0 \<or> e2 \<noteq> 0 \<or> e3 \<noteq> 0 \<or> e4 \<noteq> 0
          \<longrightarrow> send_answer_string_ulong lib ths string v w
              = Inr (- 1, \<lparr>out = out w,
                           freed = freed w @ [if e1 \<noteq> 0 then b1 else if e2 \<noteq> 0 then b2
                                              else if e3 \<noteq> 0 then b3 else b4]\<rparr>))
       \<and> (send_answer_string_ulong lib ths string v w = Inr (rv, w')
          \<longrightarrow> freed w' = freed w @ [if e1 \<noteq> 0 then b1 else if e2 \<noteq> 0 then b2
                                     else if e3 \<noteq> 0 then b3 else b4])"
  unfolding send_answer_string_ulong_def encode_reply_steps [OF assms] ei_x_free_def
  by (cases w) (auto split: sum.splits)

text \<open>
  Claim C10. When the four encoder calls return 0 and \<^verbatim>\<open>write_cmd\<close> returns \<open>n\<close>, the
  result of \<^verbatim>\<open>send_answer_string_ulong\<close> is \<open>-1\<close> only for \<open>n = 0\<close>. For a negative \<open>n\<close>,
  the value \<^verbatim>\<open>write_exact\<close> passes on from a failed \<^verbatim>\<open>write\<close>, the result is 0, as it is
  after a successful transmission.
\<close>

theorem negative_write_is_success:
  assumes "ei_x_new_with_version lib = (0, b1)"
    and "ei_x_encode_tuple_header lib b1 ths = (0, b2)"
    and "ei_x_encode_atom lib b2 string = (0, b3)"
    and "ei_x_encode_ulong lib b3 v = (0, b4)"
    and "write_cmd b4 (out w) = Inr (n, s)"
  shows "(n < 0 \<longrightarrow> send_answer_string_ulong lib ths string v w
                     = Inr (0, \<lparr>out = s, freed = freed w @ [b4]\<rparr>))
       \<and> (n = 0 \<longrightarrow> send_answer_string_ulong lib ths string v w
                     = Inr (- 1, \<lparr>out = s, freed = freed w @ [b4]\<rparr>))
       \<and> (0 < n \<longrightarrow> send_answer_string_ulong lib ths string v w
                     = Inr (0, \<lparr>out = s, freed = freed w @ [b4]\<rparr>))"
  unfolding send_answer_string_ulong_def encode_reply_steps [OF assms(1-4)] ei_x_free_def
  using assms(5) by (cases w) simp

section \<open>The functions at particular inputs\<close>

lemmas reader_defs =
  fresh_reader_def observe_def buffer_def read_cmd_def read_header_def read_body_def grow_buf_def
  read_fd_def sys_read_def store_bytes_def realloc_def memset_def resized_def c_int_def
  frame_len_eq Let_def

lemmas writer_defs = write_cmd_def write_exact_def write_loop.simps sys_write_def Let_def

text \<open>
  Claim C1 says that a body-phase call whose read succeeds reports a complete frame
  exactly when the cursor has reached \<open>L + 2\<close>, and "call again" otherwise. Here the
  buffer holds the header of a frame of 5 bytes and the cursor is 2. When the read
  delivers 3 of the 5 bytes the call returns 2 with the cursor at 5; when it delivers all
  5 the call returns 2 with the cursor at 7. Line 62 returns 2 after every successful
  body read, so the return value does not tell the two apart.
\<close>

theorem partial_body_reported_like_full:
  "observe (read_cmd True Alloc_fail ((fresh_reader [0, 5, 0, 0, 0, 0, 0, 0])\<lparr>curpos := 2\<rparr>)
      [Data [1, 2, 3]])
     = Inr (2, 5, 8, Some [0, 5, 1, 2, 3, 0, 0, 0], [])
   \<and> observe (read_cmd True Alloc_fail ((fresh_reader [0, 5, 0, 0, 0, 0, 0, 0])\<lparr>curpos := 2\<rparr>)
      [Data [1, 2, 3, 4, 5]])
     = Inr (2, 7, 8, Some [0, 5, 1, 2, 3, 4, 5, 0], [])"
  by (simp add: reader_defs)

text \<open>
  Claim C2 says that growth keeps every byte already read at its offset and leaves the
  added region zero. Here the capacity is 4, the buffer holds the header \<open>[0x00, 0x08]\<close>
  and the cursor is 2. When \<^verbatim>\<open>realloc\<close> enlarges the block in place and leaves \<open>0x55\<close> in
  the added bytes, the \<^verbatim>\<open>memset\<close> of line 50 clears offsets 0 to 3 of the block: the header
  byte \<open>0x08\<close> is gone, and offsets 5 to 7 of the added region still hold \<open>0x55\<close> after the
  call has stored 3 body bytes. When \<^verbatim>\<open>realloc\<close> moves the block, the same \<^verbatim>\<open>memset\<close>
  writes through the freed pointer.
\<close>

theorem growth_zeroes_the_header:
  "observe (read_cmd True (Alloc_in_place (\<lambda>i. 0x55)) ((fresh_reader [0, 8, 0, 0])\<lparr>curpos := 2\<rparr>)
      [Data [1, 2, 3]])
     = Inr (2, 5, 8, Some [0, 0, 1, 2, 3, 0x55, 0x55, 0x55], [])
   \<and> read_cmd True (Alloc_moved 1 (\<lambda>i. 0x55)) ((fresh_reader [0, 8, 0, 0])\<lparr>curpos := 2\<rparr>)
      [Data [1, 2, 3]]
     = Inl Bad_pointer"
  by (simp add: reader_defs) (simp add: eval_nat_numeral)

text \<open>
  Claim C4 says that a failed write ends \<^verbatim>\<open>write_cmd\<close> at once with the failure value.
  Here the payload is \<open>[1, 2, 3]\<close> and the first \<^verbatim>\<open>write\<close>, the one for the high header
  byte, returns \<open>-1\<close>. Lines 81 and 83 drop what \<^verbatim>\<open>write_exact\<close> returns: the low header
  byte and the payload are transmitted all the same and the call returns 3.
\<close>

theorem header_write_failure_ignored:
  "write_cmd \<lparr>buff = [1, 2, 3], index = 3\<rparr> \<lparr>pending = [Refuse 1], sent = []\<rparr>
     = Inr (3, \<lparr>pending = [], sent = [3, 1, 2, 3]\<rparr>)"
  by (simp add: writer_defs)

text \<open>
  Claim C3 as the specification states it: the first call is to return "call again" (1)
  with the cursor at 2 and the second delivery still in the stream. With a buffer of 8
  bytes the first call returns 2 with the cursor at 7 and the stream empty.
\<close>

theorem scenario_A_first_call_completes:
  "observe (read_cmd True Alloc_fail (fresh_reader [0, 0, 0, 0, 0, 0, 0, 0])
      [Data [0, 5], Data [1, 2, 3, 4, 5]])
     = Inr (2, 7, 8, Some [0, 5, 1, 2, 3, 4, 5, 0], [])
   \<and> observe (read_cmd True Alloc_fail (fresh_reader [0, 0, 0, 0, 0, 0, 0, 0])
      [Data [0, 5], Data [1, 2, 3, 4, 5]])
     \<noteq> Inr (1, 2, 8, Some [0, 5, 0, 0, 0, 0, 0, 0], [Data [1, 2, 3, 4, 5]])"
  by (simp add: reader_defs)

text \<open>
  Claim C5 as the specification states it: the result after a failed body-phase read is
  to differ from the result after a failed header-phase read. On a closed stream a call
  in the header phase (cursor 0) and a call in the body phase (cursor 3, one body byte
  buffered) both return 0.
\<close>

theorem closure_codes_coincide:
  "observe (read_cmd True Alloc_fail (fresh_reader [0, 0, 0, 0]) [])
     = Inr (0, 0, 4, Some [0, 0, 0, 0], [])
   \<and> observe (read_cmd True Alloc_fail ((fresh_reader [0, 2, 7, 0])\<lparr>curpos := 3\<rparr>) [])
     = Inr (0, 3, 4, Some [0, 2, 7, 0], [])"
  by (simp add: reader_defs)

text \<open>
  Claim C7 as the specification states it, for every length from 0 and with nothing said
  about the buffer. The frame of the empty payload is \<open>[0, 0]\<close>; reading it back returns 0,
  the value of a failed body read, because the body read asks for 0 bytes. And the frame
  of a payload of 5 bytes, read into a buffer of capacity 4 that \<^verbatim>\<open>realloc\<close> enlarges in
  place, is stored beyond the end of the block: lines 46 and 47 compare with and ask for
  the body length, while the frame takes 2 bytes more.
\<close>

theorem empty_frame_not_read_back:
  "write_cmd \<lparr>buff = [], index = 0\<rparr> \<lparr>pending = [], sent = []\<rparr>
     = Inr (0, \<lparr>pending = [], sent = [0, 0]\<rparr>)
   \<and> observe (read_cmd True Alloc_fail (fresh_reader [9, 9, 9, 9]) [Data [0, 0]])
     = Inr (0, 2, 4, Some [0, 0, 9, 9], [])
   \<and> write_cmd \<lparr>buff = [1, 2, 3, 4, 5], index = 5\<rparr> \<lparr>pending = [], sent = []\<rparr>
     = Inr (5, \<lparr>pending = [], sent = [0, 5, 1, 2, 3, 4, 5]\<rparr>)
   \<and> read_cmd True (Alloc_in_place (\<lambda>i. 0)) (fresh_reader [9, 9, 9, 9]) [Data [0, 5, 1, 2, 3, 4, 5]]
     = Inl Out_of_bounds"
  by (simp add: reader_defs writer_defs)

subsection \<open>The theorems at sample inputs\<close>

theorem scenario_A_witness:
  "curpos (fresh_reader [9, 9, 9, 9, 9, 9, 9, 9]) = 0
   \<and> buffer (fresh_reader [9, 9, 9, 9, 9, 9, 9, 9]) = Some [9, 9, 9, 9, 9, 9, 9, 9]
   \<and> 7 \<le> length [9, 9, 9, 9, 9, 9, 9, 9 :: byte]
   \<and> 5 \<le> bufsize (fresh_reader [9, 9, 9, 9, 9, 9, 9, 9])
   \<and> read_cmd True Alloc_fail (fresh_reader [9, 9, 9, 9, 9, 9, 9, 9])
        [Data [0, 5], Data [1, 2, 3, 4, 5]]
      = Inr (2, \<lparr>mem = Map.empty(0 \<mapsto> [0, 5, 1, 2, 3, 4, 5, 9]), pbuf = 0, bufsize = 8,
                  curpos = 7\<rparr>, [])"
  using scenario_A [of "fresh_reader [9, 9, 9, 9, 9, 9, 9, 9]" "[9, 9, 9, 9, 9, 9, 9, 9]" True Alloc_fail]
  by (simp add: fresh_reader_def buffer_def)

theorem failure_codes_witness:
  "sys_read (2 - curpos (fresh_reader [0, 0, 0, 0])) [Status 1, Data [7]] = (- 1, [], [Data [7]])
   \<and> read_cmd True Alloc_fail (fresh_reader [0, 0, 0, 0]) [Status 1, Data [7]]
      = Inr (- 1, fresh_reader [0, 0, 0, 0], [Data [7]])
   \<and> read_header ((fresh_reader [0, 2, 7, 0])\<lparr>curpos := 3\<rparr>) [Status 1, Data [7]]
      = Inr (None, (fresh_reader [0, 2, 7, 0])\<lparr>curpos := 3\<rparr>, [Status 1, Data [7]])
   \<and> read_cmd True Alloc_fail ((fresh_reader [0, 2, 7, 0])\<lparr>curpos := 3\<rparr>) [Status 1, Data [7]]
      = Inr (0, (fresh_reader [0, 2, 7, 0])\<lparr>curpos := 3\<rparr>, [Data [7]])"
proof -
  let ?r = "fresh_reader [0, 0, 0, 0]"
  let ?q = "(fresh_reader [0, 2, 7, 0])\<lparr>curpos := 3\<rparr>"
  have 1: "sys_read (2 - curpos ?r) [Status 1, Data [7]] = (- 1, [], [Data [7]])"
    by (simp add: sys_read_def fresh_reader_def)
  have 2: "read_header ?q [Status 1, Data [7]] = Inr (None, ?q, [Status 1, Data [7]])"
    by (simp add: read_header_def fresh_reader_def)
  have 3: "buffer ?q = Some [0, 2, 7, 0]"
    by (simp add: buffer_def fresh_reader_def)
  have 4: "grow_buf Alloc_fail ?q (frame_len True ([0, 2, 7, 0] ! 0) ([0, 2, 7, 0] ! 1)) = Inr (Some ?q)"
    by (simp add: grow_buf_def frame_len_eq fresh_reader_def)
  have 5: "sys_read (frame_len True ([0, 2, 7, 0] ! 0) ([0, 2, 7, 0] ! 1) - curpos ?q + 2)
             [Status 1, Data [7]] = (- 1, [], [Data [7]])"
    by (simp add: sys_read_def frame_len_eq fresh_reader_def)
  show ?thesis
    using failure_codes [of ?r "[Status 1, Data [7]]" "- 1" "[]" "[Data [7]]" True Alloc_fail
        ?q "[Status 1, Data [7]]" ?q "[Status 1, Data [7]]" "[0, 2, 7, 0]" ?q "- 1" "[]" "[Data [7]]"]
      1 2 3 4 5
    by (simp add: c_int_def fresh_reader_def)
qed

theorem capacity_never_shrinks_witness:
  "read_cmds True [(Alloc_in_place (\<lambda>i. 0), None), (Alloc_fail, Some 0)]
      (fresh_reader [9, 9, 9, 9]) [Data [0, 8], Data [1, 2, 3, 4, 5, 6], Data [0, 1, 7]]
     = Inr ([2, 2], \<lparr>mem = Map.empty(0 \<mapsto> [0, 1, 7, 2, 3, 4, 5, 6]), pbuf = 0, bufsize = 8,
                      curpos = 3\<rparr>, [])
   \<and> bufsize (fresh_reader [9, 9, 9, 9]) \<le> 8
   \<and> read_header (fresh_reader [9, 9, 9, 9]) [Data [0, 8], Data [1, 2, 3]]
     = Inr (None, \<lparr>mem = Map.empty(0 \<mapsto> [0, 8, 9, 9]), pbuf = 0, bufsize = 4, curpos = 2\<rparr>,
            [Data [1, 2, 3]])
   \<and> read_cmd True Alloc_fail (fresh_reader [9, 9, 9, 9]) [Data [0, 8], Data [1, 2, 3]]
     = Inr (- 1, \<lparr>mem = Map.empty(0 \<mapsto> [0, 8, 9, 9]), pbuf = 0, bufsize = 4, curpos = 2\<rparr>,
            [Data [1, 2, 3]])"
proof -
  let ?r = "fresh_reader [9, 9, 9, 9]"
  let ?r' = "\<lparr>mem = Map.empty(0 \<mapsto> [0, 1, 7, 2, 3, 4, 5, 6]), pbuf = 0, bufsize = 8, curpos = 3\<rparr>"
  let ?q1 = "\<lparr>mem = Map.empty(0 \<mapsto> [0, 8, 9, 9]), pbuf = 0, bufsize = 4, curpos = 2\<rparr>"
  have 1: "read_cmds True [(Alloc_in_place (\<lambda>i. 0), None), (Alloc_fail, Some 0)]
      ?r [Data [0, 8], Data [1, 2, 3, 4, 5, 6], Data [0, 1, 7]] = Inr ([2, 2], ?r', [])"
    by (simp add: reader_defs)
  have 2: "read_header ?r [Data [0, 8], Data [1, 2, 3]] = Inr (None, ?q1, [Data [1, 2, 3]])"
    by (simp add: reader_defs)
  have 3: "buffer ?q1 = Some [0, 8, 9, 9]"
    by (simp add: buffer_def)
  show ?thesis
    using capacity_never_shrinks [of True "[(Alloc_in_place (\<lambda>i. 0), None), (Alloc_fail, Some 0)]"
        ?r "[Data [0, 8], Data [1, 2, 3, 4, 5, 6], Data [0, 1, 7]]" "[2, 2]" ?r' "[]"
        ?r "[Data [0, 8], Data [1, 2, 3]]" ?q1 "[Data [1, 2, 3]]" "[0, 8, 9, 9]"]
      1 2 3
    by (simp add: frame_len_eq c_int_def fresh_reader_def)
qed

theorem roundtrip_witness:
  "write_cmd \<lparr>buff = [1, 2, 3], index = 3\<rparr> \<lparr>pending = [Accept 1, Accept 1, Accept 2], sent = []\<rparr>
     = Inr (3, \<lparr>pending = [], sent = [0, 3, 1, 2, 3]\<rparr>)
   \<and> read_cmd True Alloc_fail (fresh_reader [9, 9, 9, 9, 9, 9]) [Data [0, 3, 1, 2, 3]]
     = Inr (2, \<lparr>mem = Map.empty(0 \<mapsto> [0, 3, 1, 2, 3, 9]), pbuf = 0, bufsize = 6, curpos = 5\<rparr>, [])
   \<and> read_cmds True (replicate 3 (Alloc_fail, None)) (fresh_reader [9, 9, 9, 9, 9, 9])
        (map Data [[0], [3, 1], [2, 3]])
     = Inr ([1, 2, 2], \<lparr>mem = Map.empty(0 \<mapsto> [0, 3, 1, 2, 3, 9]), pbuf = 0, bufsize = 6,
                          curpos = 5\<rparr>, [])"
proof -
  have w: "write_cmd \<lparr>buff = [1, 2, 3], index = 3\<rparr>
             \<lparr>pending = [Accept 1, Accept 1, Accept 2], sent = []\<rparr>
           = Inr (3, \<lparr>pending = [], sent = [0, 3, 1, 2, 3]\<rparr>)"
    by (simp add: writer_defs)
  have a: "\<forall>w\<in>set [Accept 1, Accept 1, Accept 2]. \<exists>k. w = Accept (Suc k)"
    by (simp add: numeral_2_eq_2)
  have three: "replicate 3 (Alloc_fail, None :: int option)
      = [(Alloc_fail, None), (Alloc_fail, None), (Alloc_fail, None)]"
    by (simp add: numeral_3_eq_3)
  have p: "read_cmds True (replicate 3 (Alloc_fail, None)) (fresh_reader [9, 9, 9, 9, 9, 9])
        (map Data [[0], [3, 1], [2, 3]])
     = Inr ([1, 2, 2], \<lparr>mem = Map.empty(0 \<mapsto> [0, 3, 1, 2, 3, 9]), pbuf = 0, bufsize = 6,
                          curpos = 5\<rparr>, [])"
    unfolding three by (simp add: reader_defs)
  show ?thesis
    using roundtrip [of "\<lparr>buff = [1, 2, 3], index = 3\<rparr>" "[Accept 1, Accept 1, Accept 2]"
        "fresh_reader [9, 9, 9, 9, 9, 9]" "[9, 9, 9, 9, 9, 9]" True Alloc_fail] w a p
    by (simp add: fresh_reader_def buffer_def)
qed

theorem failed_encoding_sends_nothing_witness:
  "ei_x_encode_ulong (example_lib 1) \<lparr>buff = [131, 104, 2, 115, 2, 111, 107], index = 7\<rparr> 42
     = (1, \<lparr>buff = [131, 104, 2, 115, 2, 111, 107], index = 7\<rparr>)
   \<and> send_answer_string_ulong (example_lib 1) 2 ''ok'' 42
        \<lparr>out = \<lparr>pending = [], sent = []\<rparr>, freed = []\<rparr>
     = Inr (- 1, \<lparr>out = \<lparr>pending = [], sent = []\<rparr>,
                  freed = [\<lparr>buff = [131, 104, 2, 115, 2, 111, 107], index = 7\<rparr>]\<rparr>)"
  using failed_encoding_sends_nothing [of "example_lib 1" 0 "\<lparr>buff = [131], index = 1\<rparr>"
      2 0 "\<lparr>buff = [131, 104, 2], index = 3\<rparr>"
      "''ok''" 0 "\<lparr>buff = [131, 104, 2, 115, 2, 111, 107], index = 7\<rparr>"
      42 1 "\<lparr>buff = [131, 104, 2, 115, 2, 111, 107], index = 7\<rparr>"
      "\<lparr>out = \<lparr>pending = [], sent = []\<rparr>, freed = []\<rparr>"]
  by (simp add: example_lib_def)

theorem negative_write_is_success_witness:
  "write_cmd \<lparr>buff = [131, 104, 2, 115, 2, 111, 107, 97, 42], index = 9\<rparr>
      \<lparr>pending = [Accept 1, Accept 1, Refuse 1], sent = []\<rparr>
     = Inr (- 1, \<lparr>pending = [], sent = [0, 9]\<rparr>)
   \<and> send_answer_string_ulong (example_lib 0) 2 ''ok'' 42
        \<lparr>out = \<lparr>pending = [Accept 1, Accept 1, Refuse 1], sent = []\<rparr>, freed = []\<rparr>
     = Inr (0, \<lparr>out = \<lparr>pending = [], sent = [0, 9]\<rparr>,
                 freed = [\<lparr>buff = [131, 104, 2, 115, 2, 111, 107, 97, 42], index = 9\<rparr>]\<rparr>)"
proof -
  have w: "write_cmd \<lparr>buff = [131, 104, 2, 115, 2, 111, 107, 97, 42], index = 9\<rparr>
      (out \<lparr>out = \<lparr>pending = [Accept 1, Accept 1, Refuse 1], sent = []\<rparr>, freed = []\<rparr>)
     = Inr (- 1, \<lparr>pending = [], sent = [0, 9]\<rparr>)"
    by (simp add: writer_defs)
  show ?thesis
    using negative_write_is_success [of "example_lib 0" "\<lparr>buff = [131], index = 1\<rparr>"
      2 "\<lparr>buff = [131, 104, 2], index = 3\<rparr>"
      "''ok''" "\<lparr>buff = [131, 104, 2, 115, 2, 111, 107], index = 7\<rparr>"
      42 "\<lparr>buff = [131, 104, 2, 115, 2, 111, 107, 97, 42], index = 9\<rparr>"
      "\<lparr>out = \<lparr>pending = [Accept 1, Accept 1, Refuse 1], sent = []\<rparr>, freed = []\<rparr>"
      "- 1" "\<lparr>pending = [], sent = [0, 9]\<rparr>"] w
    by (simp add: example_lib_def)
qed

end
